theory Spec2Isabelle
  imports Main "HOL-Library.AList"
begin

section \<open>Data model\<close>

text \<open>
  Modelled from the spec: the class \<open>Unit\<close> is imported from \<open>common.py\<close>, which is not part
  of the source tree. Its five fields are the keyword arguments of the constructor call in
  \<open>remove_repeated_urls\<close> and the fields of the Resource Record of the data model: three
  optional strings and two ordered sequences of strings.
\<close>

record Unit =
  video_youtube_url :: "string option"
  available_subs_url :: "string option"
  sub_template_url :: "string option"
  mp4_urls :: "string list"
  resources_urls :: "string list"

text \<open>
  A Python \<open>dict\<close> keyed by strings is an association list in iteration order. A well-formed
  dict has pairwise distinct keys; \<open>d[k] = v\<close> is \<open>AList.update k v d\<close> (an existing key keeps
  its position, a new key goes last) and \<open>k in d\<close> is membership in \<open>dict_keys d\<close>.
\<close>

type_synonym 'v dict = "(string \<times> 'v) list"

definition dict_keys :: "'v dict \<Rightarrow> string list" where
  "dict_keys d = map fst d"

definition dict_values :: "'v dict \<Rightarrow> 'v list" where
  "dict_values d = map snd d"

text \<open>\<open>d.update(other)\<close>: every item of \<open>other\<close>, in its order, is stored into \<open>d\<close>.\<close>

fun dict_update :: "'v dict \<Rightarrow> 'v dict \<Rightarrow> 'v dict" where
  "dict_update d [] = d"
| "dict_update d ((k, v) # other) = dict_update (AList.update k v d) other"

text \<open>The exceptions the modelled functions let escape, by class.\<close>

datatype py_error = HTTPError | URLError | ValueError | TypeError | UnpicklingError

section \<open>Deduplication: \<open>remove_repeated_urls\<close>\<close>

text \<open>
  The set \<open>existing_urls\<close> receives \<open>unit.video_youtube_url\<close> as it is, so it may hold
  \<open>None\<close> beside strings: its elements are \<open>string option\<close>, a string \<open>u\<close> being \<open>Some u\<close>.

  The two inner loops over \<open>unit.mp4_urls\<close> and \<open>unit.resources_urls\<close> have the same body;
  \<open>keep_new_urls existing urls kept\<close> is that loop, \<open>kept\<close> the list being appended to.
\<close>

fun keep_new_urls ::
  "string option set \<Rightarrow> string list \<Rightarrow> string list \<Rightarrow> string option set \<times> string list" where
  "keep_new_urls existing_urls [] kept = (existing_urls, kept)"
| "keep_new_urls existing_urls (url # urls) kept =
     (if Some url \<notin> existing_urls
      then keep_new_urls (insert (Some url) existing_urls) urls (kept @ [url])
      else keep_new_urls existing_urls urls kept)"

text \<open>
  The first half of the body of the loop over the units of one subsection: the three
  re-derived fields of one unit and the set of claimed urls after it.
\<close>

definition dedup_fields ::
  "string option set \<Rightarrow> Unit \<Rightarrow> string option \<times> string list \<times> string list \<times> string option set" where
  "dedup_fields existing_urls unit =
     (let (video, ex1) =
            (if video_youtube_url unit \<notin> existing_urls
             then (video_youtube_url unit, insert (video_youtube_url unit) existing_urls)
             else (None, existing_urls));
          (ex2, mp4s) = keep_new_urls ex1 (mp4_urls unit) [];
          (ex3, ress) = keep_new_urls ex2 (resources_urls unit) []
      in (video, mp4s, ress, ex3))"

text \<open>The whole body: the unit is appended to \<open>reduced_units\<close> only if a url is left.\<close>

definition reduce_unit ::
  "string option set \<Rightarrow> Unit \<Rightarrow> Unit list \<Rightarrow> string option set \<times> Unit list" where
  "reduce_unit existing_urls unit reduced_units =
     (case dedup_fields existing_urls unit of
        (video, mp4s, ress, ex3) \<Rightarrow>
          if video \<noteq> None \<or> length mp4s > 0 \<or> length ress > 0
          then (ex3, reduced_units @
                  [\<lparr>video_youtube_url = video,
                    available_subs_url = available_subs_url unit,
                    sub_template_url = sub_template_url unit,
                    mp4_urls = mp4s,
                    resources_urls = ress\<rparr>])
          else (ex3, reduced_units))"

fun reduce_units ::
  "string option set \<Rightarrow> Unit list \<Rightarrow> Unit list \<Rightarrow> string option set \<times> Unit list" where
  "reduce_units existing_urls [] reduced_units = (existing_urls, reduced_units)"
| "reduce_units existing_urls (unit # units) reduced_units =
     (case reduce_unit existing_urls unit reduced_units of
        (ex, reduced) \<Rightarrow> reduce_units ex units reduced)"

text \<open>The outer loop over \<open>all_units.items()\<close>, with \<open>filtered_units[url] = reduced_units\<close>.\<close>

fun filter_items ::
  "string option set \<Rightarrow> Unit list dict \<Rightarrow> Unit list dict \<Rightarrow> Unit list dict" where
  "filter_items existing_urls [] filtered_units = filtered_units"
| "filter_items existing_urls ((url, units) # items) filtered_units =
     (case reduce_units existing_urls units [] of
        (ex, reduced_units) \<Rightarrow>
          filter_items ex items (AList.update url reduced_units filtered_units))"

definition remove_repeated_urls :: "Unit list dict \<Rightarrow> Unit list dict" where
  "remove_repeated_urls all_units = filter_items {} all_units []"

text \<open>
  The resource urls of a unit in the order the loop body visits them, and of a sequence of
  units and of a whole map in traversal order.
\<close>

definition unit_urls :: "Unit \<Rightarrow> string list" where
  "unit_urls unit =
     (case video_youtube_url unit of None \<Rightarrow> [] | Some v \<Rightarrow> [v])
       @ mp4_urls unit @ resources_urls unit"

definition units_urls :: "Unit list \<Rightarrow> string list" where
  "units_urls units = concat (map unit_urls units)"

definition dict_urls :: "Unit list dict \<Rightarrow> string list" where
  "dict_urls d = concat (map (\<lambda>(url, units). units_urls units) d)"

text \<open>The strings among the claimed urls (\<open>None\<close> left out).\<close>

definition claimed :: "string option set \<Rightarrow> string set" where
  "claimed existing_urls = {u. Some u \<in> existing_urls}"

text \<open>
  First occurrence wins, as a specification on a plain sequence of urls: an url is kept
  unless it is in \<open>seen\<close> or stands earlier in the sequence.
\<close>

fun first_occurrences :: "string set \<Rightarrow> string list \<Rightarrow> string list" where
  "first_occurrences seen [] = []"
| "first_occurrences seen (u # us) =
     (if u \<in> seen then first_occurrences seen us
      else u # first_occurrences (insert u seen) us)"

text \<open>
  The outer loop without its accumulator: every item keeps its key and gets the reduced
  units of its subsection, the claimed urls being handed from one item to the next. For a
  map with distinct keys this is what \<open>filter_items\<close> builds (\<open>filter_items_walk\<close> below).
\<close>

fun walk_items :: "string option set \<Rightarrow> Unit list dict \<Rightarrow> Unit list dict" where
  "walk_items E [] = []"
| "walk_items E ((k, us) # rest) =
     (k, snd (reduce_units E us [])) # walk_items (fst (reduce_units E us [])) rest"

section \<open>Counting: \<open>num_urls_in_units_dict\<close>\<close>

text \<open>The summand of one unit, and the sum over \<open>units_dict.values()\<close> and their units.\<close>

definition unit_num_urls :: "Unit \<Rightarrow> int" where
  "unit_num_urls unit =
     (if video_youtube_url unit \<noteq> None then 1 else 0) +
     (if available_subs_url unit \<noteq> None then 1 else 0) +
     (if sub_template_url unit \<noteq> None then 1 else 0) +
     int (length (mp4_urls unit)) + int (length (resources_urls unit))"

definition num_urls_in_units_dict :: "Unit list dict \<Rightarrow> int" where
  "num_urls_in_units_dict units_dict =
     sum_list (map unit_num_urls (concat (dict_values units_dict)))"

text \<open>
  The count in the words of the specification: one for each of the three optional fields
  that is set, plus the lengths of the two sequences.
\<close>

definition spec_unit_count :: "Unit \<Rightarrow> int" where
  "spec_unit_count unit =
     (case video_youtube_url unit of None \<Rightarrow> 0 | Some _ \<Rightarrow> 1) +
     (case available_subs_url unit of None \<Rightarrow> 0 | Some _ \<Rightarrow> 1) +
     (case sub_template_url unit of None \<Rightarrow> 0 | Some _ \<Rightarrow> 1) +
     int (length (mp4_urls unit)) + int (length (resources_urls unit))"

text \<open>
  What deduplication removes, counted on the input alone. A repeated url is an occurrence
  in traversal order that is not the first one of its value. A unit is dropped when every
  url of it stands earlier in the traversal (in particular when it has none); its subtitle
  fields go with it.
\<close>

definition repeated_urls :: "Unit list dict \<Rightarrow> nat" where
  "repeated_urls all_units =
     length (dict_urls all_units) - length (remdups (dict_urls all_units))"

definition subtitle_fields :: "Unit \<Rightarrow> nat" where
  "subtitle_fields unit =
     (case available_subs_url unit of None \<Rightarrow> 0 | Some _ \<Rightarrow> 1) +
     (case sub_template_url unit of None \<Rightarrow> 0 | Some _ \<Rightarrow> 1)"

fun dropped_subtitle_fields :: "string set \<Rightarrow> Unit list \<Rightarrow> nat" where
  "dropped_subtitle_fields seen [] = 0"
| "dropped_subtitle_fields seen (unit # units) =
     (if set (unit_urls unit) \<subseteq> seen then subtitle_fields unit else 0) +
     dropped_subtitle_fields (seen \<union> set (unit_urls unit)) units"

section \<open>Extraction and the cache\<close>

text \<open>
  \<open>extract_units(url, headers)\<close> fetches a page and parses it with
  \<open>extract_units_from_html\<close>; both helpers live in modules that are not part of the source
  tree, so the model takes \<open>extract_units\<close> as a parameter: the units of a url, or the
  exception the fetch or the parse raises. The headers are fixed throughout and left out.

  \<open>pool.map(mapfunc, urls)\<close> returns the results in the order of \<open>urls\<close>. The state
  threaded through is the log of the urls \<open>extract_units\<close> has been called on, one entry
  for each fetch. An escaping exception ends the run and is modelled by its class alone;
  where several urls fail, the model reports the first in list order.
\<close>

fun pool_map ::
  "(string \<Rightarrow> py_error + 'a) \<Rightarrow> string list \<Rightarrow> string list \<Rightarrow> py_error + (string list \<times> 'a list)" where
  "pool_map f [] fetch_log = Inr (fetch_log, [])"
| "pool_map f (url # urls) fetch_log =
     (case f url of
        Inl e \<Rightarrow> Inl e
      | Inr r \<Rightarrow>
          (case pool_map f urls (fetch_log @ [url]) of
             Inl e \<Rightarrow> Inl e
           | Inr (fetch_log', rs) \<Rightarrow> Inr (fetch_log', r # rs)))"

text \<open>\<open>dict(pairs)\<close>: the pairs are stored one after the other into an empty dict.\<close>

definition dict_of_pairs :: "(string \<times> 'v) list \<Rightarrow> 'v dict" where
  "dict_of_pairs pairs = dict_update [] pairs"

definition extract_all_units ::
  "(string \<Rightarrow> py_error + Unit list) \<Rightarrow> string list \<Rightarrow> string list
     \<Rightarrow> py_error + (string list \<times> Unit list dict)" where
  "extract_all_units extract_units urls fetch_log =
     (case pool_map extract_units urls fetch_log of
        Inl e \<Rightarrow> Inl e
      | Inr (fetch_log', units) \<Rightarrow> Inr (fetch_log', dict_of_pairs (zip urls units)))"

text \<open>
  The cache file as \<open>extract_all_units_with_cache\<close> sees it: absent, holding a pickled
  map, or holding bytes that \<open>pickle.load\<close> rejects.
\<close>

datatype cache_file = Missing | Stored "Unit list dict" | Corrupt

definition load_cache :: "cache_file \<Rightarrow> py_error + Unit list dict" where
  "load_cache file =
     (case file of
        Missing \<Rightarrow> Inr []
      | Stored cached_units \<Rightarrow> Inr cached_units
      | Corrupt \<Rightarrow> Inl UnpicklingError)"

definition extract_all_units_with_cache ::
  "cache_file \<Rightarrow> (string \<Rightarrow> py_error + Unit list) \<Rightarrow> string list \<Rightarrow> string list
     \<Rightarrow> py_error + (string list \<times> Unit list dict)" where
  "extract_all_units_with_cache file extract_units all_urls fetch_log =
     (case load_cache file of
        Inl e \<Rightarrow> Inl e
      | Inr cached_units \<Rightarrow>
          (let new_urls = filter (\<lambda>url. url \<notin> set (dict_keys cached_units)) all_urls in
           case extract_all_units extract_units new_urls fetch_log of
             Inl e \<Rightarrow> Inl e
           | Inr (fetch_log', new_units) \<Rightarrow>
               Inr (fetch_log', dict_update cached_units new_units)))"

section \<open>The end of \<open>main\<close>\<close>

text \<open>
  Modelled from the spec: \<open>Section\<close> and \<open>SubSection\<close> come from \<open>common.py\<close> as well; the
  fields are those of the hierarchy of the data model. The course that keys the selections
  is left abstract.
\<close>

record SubSection =
  subsection_name :: string
  url :: string

record Section =
  position :: int
  section_name :: string
  subsections :: "SubSection list"

record args =
  cache :: bool
  dry_run :: bool

text \<open>
  \<open>main\<close> from the point where \<open>selections\<close> is known. The run raises, exits with a status
  (\<open>parse_units\<close> is called on \<open>selections\<close> and exits with 6 when they hold no section), or
  completes; a completed run records the map written to the cache if any, the two numbers of
  the report line (duplicates removed, total) and the map \<open>download\<close> was called with, if it
  was called.
\<close>

record main_effects =
  cache_written :: "Unit list dict option"
  report :: "int \<times> int"
  download_all_units :: "Unit list dict option"

datatype main_outcome = Raised py_error | Exited int | Completed main_effects

definition main_all_urls :: "('c \<times> Section list) list \<Rightarrow> string list" where
  "main_all_urls selections =
     concat (map (\<lambda>selected_sections.
        concat (map (\<lambda>selected_section. map url (subsections selected_section))
                    selected_sections))
       (map snd selections))"

definition main_from_selections ::
  "args \<Rightarrow> cache_file \<Rightarrow> (string \<Rightarrow> py_error + Unit list) \<Rightarrow> ('c \<times> Section list) list
     \<Rightarrow> main_outcome" where
  "main_from_selections args file extract_units selections =
     (let all_urls = main_all_urls selections in
      case (if cache args
            then extract_all_units_with_cache file extract_units all_urls []
            else extract_all_units extract_units all_urls []) of
        Inl e \<Rightarrow> Raised e
      | Inr (fetch_log, all_units) \<Rightarrow>
          if length (concat (map snd selections)) < 1 then Exited 6
          else
            (let filtered_units = remove_repeated_urls all_units;
                 num_all_urls = num_urls_in_units_dict all_units;
                 num_filtered_urls = num_urls_in_units_dict filtered_units
             in Completed
                  \<lparr>cache_written = (if cache args then Some all_units else None),
                   report = (num_all_urls - num_filtered_urls, num_all_urls),
                   download_all_units = (if \<not> dry_run args then Some all_units else None)\<rparr>))"

section \<open>Subtitles\<close>

text \<open>\<open>os.path.join(a, b)\<close> for two components, as \<open>posixpath\<close> defines it.\<close>

definition path_join :: "string \<Rightarrow> string \<Rightarrow> string" where
  "path_join a b =
     (if take 1 b = ''/'' then b
      else if a = [] \<or> last a = CHR ''/'' then a @ b
      else a @ ''/'' @ b)"

text \<open>
  The helpers of \<open>utils.py\<close> and \<open>parsing.py\<close> are not part of the source tree and are
  parameters of the model, as is Python's string formatting:
  \<^item> \<open>get_filename_from_prefix\<close>, which reads the target directory: the name of the
    downloaded video for a prefix, or \<open>None\<close>;
  \<^item> \<open>get_page_contents_as_json\<close>, at the two places it is called: on the url of the
    language list, where the value iterated over is a sequence of language codes, and on
    the url of one subtitle, where the value goes to \<open>edx_json2srt\<close>;
  \<^item> \<open>edx_json2srt\<close>;
  \<^item> \<open>sub_template_url % sub_lang\<close>, which raises when the template does not fit.
  Each returns its value or the exception it raises.
\<close>

record 'j helpers =
  get_filename_from_prefix :: "(string \<rightharpoonup> string) \<Rightarrow> string \<Rightarrow> string \<Rightarrow> string option"
  get_page_contents_as_json_langs :: "string \<Rightarrow> py_error + string list"
  get_page_contents_as_json :: "string \<Rightarrow> py_error + 'j"
  edx_json2srt :: "'j \<Rightarrow> py_error + string"
  percent_format :: "string \<Rightarrow> string \<Rightarrow> py_error + string"

text \<open>The dict comprehension of \<open>get_subtitles_download_urls\<close>, language by language.\<close>

fun build_sub_urls ::
  "'j helpers \<Rightarrow> string \<Rightarrow> string list \<Rightarrow> string dict \<Rightarrow> py_error + string dict" where
  "build_sub_urls h template [] acc = Inr acc"
| "build_sub_urls h template (sub_lang # langs) acc =
     (case percent_format h template sub_lang of
        Inl e \<Rightarrow> Inl e
      | Inr sub_url \<Rightarrow> build_sub_urls h template langs (AList.update sub_lang sub_url acc))"

text \<open>Only \<open>HTTPError\<close> is caught around the request for the language list.\<close>

definition get_subtitles_download_urls ::
  "'j helpers \<Rightarrow> string option \<Rightarrow> string option \<Rightarrow> py_error + string dict" where
  "get_subtitles_download_urls h subs_url_arg template_arg =
     (case (subs_url_arg, template_arg) of
        (Some subs_url, Some template) \<Rightarrow>
          (case (case get_page_contents_as_json_langs h subs_url of
                   Inl HTTPError \<Rightarrow> Inr [''en'']
                 | Inl e \<Rightarrow> Inl e
                 | Inr langs \<Rightarrow> Inr langs) of
             Inl e \<Rightarrow> Inl e
           | Inr available_subs \<Rightarrow> build_sub_urls h template available_subs [])
      | _ \<Rightarrow> Inr [])"

text \<open>
  \<open>edx_get_subtitle\<close> catches \<open>URLError\<close> (of which \<open>HTTPError\<close> is a subclass) and
  \<open>ValueError\<close> and returns \<open>None\<close> for them; any other exception escapes. The two
  handlers print a warning, which the model leaves out as it does every other printing; the
  handler of \<open>ValueError\<close> reads \<open>exception.message\<close> and is modelled as on Python 2, where
  that attribute exists.
\<close>

definition caught_by_edx_get_subtitle :: "py_error \<Rightarrow> bool" where
  "caught_by_edx_get_subtitle e = (e = URLError \<or> e = HTTPError \<or> e = ValueError)"

definition edx_get_subtitle :: "'j helpers \<Rightarrow> string \<Rightarrow> py_error + string option" where
  "edx_get_subtitle h sub_url =
     (case get_page_contents_as_json h sub_url of
        Inl e \<Rightarrow> if caught_by_edx_get_subtitle e then Inr None else Inl e
      | Inr json_object \<Rightarrow>
          (case edx_json2srt h json_object of
             Inl e \<Rightarrow> if caught_by_edx_get_subtitle e then Inr None else Inl e
           | Inr srt \<Rightarrow> Inr (Some srt)))"

text \<open>
  The file system and the two logs of the subtitle download: the files by absolute path
  with their contents, the working directory, the paths written to and, for every
  subtitle request, its url with the path it was requested for. A relative path is
  resolved against the working directory; writing is taken to succeed.
\<close>

record world =
  files :: "string \<rightharpoonup> string"
  cwd :: string
  written :: "string list"
  fetched :: "(string \<times> string) list"

definition path_exists :: "world \<Rightarrow> string \<Rightarrow> bool" where
  "path_exists w path = (path_join (cwd w) path \<in> dom (files w))"

definition truthy :: "string option \<Rightarrow> bool" where
  "truthy s = (case s of None \<Rightarrow> False | Some str \<Rightarrow> str \<noteq> [])"

text \<open>The loop over \<open>subtitles_download_urls.items()\<close>.\<close>

fun write_subtitles ::
  "'j helpers \<Rightarrow> string \<Rightarrow> string \<Rightarrow> string dict \<Rightarrow> world \<Rightarrow> py_error option \<times> world" where
  "write_subtitles h target_dir filename [] w = (None, w)"
| "write_subtitles h target_dir filename ((sub_lang, sub_url) # items) w =
     (let subs_filename = path_join target_dir (filename @ ''.'' @ sub_lang @ ''.srt'') in
      if \<not> path_exists w subs_filename
      then
        (let w1 = w\<lparr>fetched := fetched w @ [(sub_url, path_join (cwd w) subs_filename)]\<rparr> in
         case edx_get_subtitle h sub_url of
           Inl e \<Rightarrow> (Some e, w1)
         | Inr subs_string \<Rightarrow>
             if truthy subs_string
             then write_subtitles h target_dir filename items
                    (w1\<lparr>files := (files w1)(path_join (cwd w1) subs_filename \<mapsto> the subs_string),
                        written := written w1 @ [path_join (cwd w1) subs_filename]\<rparr>)
             else write_subtitles h target_dir filename items w1)
      else write_subtitles h target_dir filename items w)"

text \<open>\<open>_download_subtitles\<close>: the exception that escapes, if any, and the world after.\<close>

definition download_subtitles ::
  "'j helpers \<Rightarrow> Unit \<Rightarrow> string \<Rightarrow> string \<Rightarrow> world \<Rightarrow> py_error option \<times> world" where
  "download_subtitles h unit target_dir filename_prefix w =
     (case get_filename_from_prefix h (files w) target_dir filename_prefix of
        None \<Rightarrow> (None, w)
      | Some filename \<Rightarrow>
          (case sub_template_url unit of
             None \<Rightarrow> (None, w)
           | Some _ \<Rightarrow>
               (case get_subtitles_download_urls h (available_subs_url unit)
                       (sub_template_url unit) of
                  Inl e \<Rightarrow> (Some e, w)
                | Inr subtitles_download_urls \<Rightarrow>
                    write_subtitles h target_dir filename subtitles_download_urls w)))"

section \<open>A worked example\<close>

text \<open>
  Three subsections of one unit each. The unit of \<open>/s2\<close> repeats the video and the mp4 file
  of \<open>/s1\<close> and has nothing else, so deduplication drops it together with its two subtitle
  fields; the unit of \<open>/s3\<close> repeats the mp4 file and the slides and adds one mp4 file.
\<close>

definition unit_a :: Unit where
  "unit_a = \<lparr>video_youtube_url = Some ''yt1'',
              available_subs_url = Some ''/subs1'',
              sub_template_url = Some ''/tmpl1/%s'',
              mp4_urls = [''http://x/a.mp4''],
              resources_urls = [''http://x/slides.pdf'']\<rparr>"

definition unit_b :: Unit where
  "unit_b = \<lparr>video_youtube_url = Some ''yt1'',
              available_subs_url = Some ''/subs2'',
              sub_template_url = Some ''/tmpl2/%s'',
              mp4_urls = [''http://x/a.mp4''],
              resources_urls = []\<rparr>"

definition unit_c :: Unit where
  "unit_c = \<lparr>video_youtube_url = None,
              available_subs_url = None,
              sub_template_url = Some ''/tmpl3/%s'',
              mp4_urls = [''http://x/a.mp4'', ''http://x/b.mp4''],
              resources_urls = [''http://x/slides.pdf'']\<rparr>"

definition example_units :: "Unit list dict" where
  "example_units = [(''/s1'', [unit_a]), (''/s2'', [unit_b]), (''/s3'', [unit_c])]"

text \<open>The pages behind the three urls; any other url cannot be reached.\<close>

definition example_extract_units :: "string \<Rightarrow> py_error + Unit list" where
  "example_extract_units page_url =
     (if page_url = ''/s1'' then Inr [unit_a]
      else if page_url = ''/s2'' then Inr [unit_b]
      else if page_url = ''/s3'' then Inr [unit_c]
      else Inl URLError)"

definition example_selections :: "(string \<times> Section list) list" where
  "example_selections =
     [(''CourseA'',
       [\<lparr>position = 1, section_name = ''Week 1'',
         subsections = [\<lparr>subsection_name = ''One'', url = ''/s1''\<rparr>,
                        \<lparr>subsection_name = ''Two'', url = ''/s2''\<rparr>,
                        \<lparr>subsection_name = ''Three'', url = ''/s3''\<rparr>]\<rparr>])]"

text \<open>
  Python's \<open>template % arg\<close> for a string \<open>arg\<close>, for use in the examples: the template is
  scanned from the left, \<open>%%\<close> gives a percent sign and \<open>%s\<close> the argument. \<open>TypeError\<close> is
  raised by a second \<open>%s\<close> (not enough arguments), by a template without \<open>%s\<close> (not all
  arguments converted) and by a numeric conversion; \<open>ValueError\<close> by a \<open>%\<close> at the end. This
  is what Python does for templates whose conversions are of these kinds, as those of the
  examples are; the other forms (flags, widths, \<open>%r\<close>, \<open>%c\<close>, mapping keys) are not
  described and stand as \<open>ValueError\<close>. The flag tells whether the argument has been used.
\<close>

fun percent_scan :: "string \<Rightarrow> string \<Rightarrow> bool \<Rightarrow> py_error + string" where
  "percent_scan [] arg used = (if used then Inr [] else Inl TypeError)"
| "percent_scan [c] arg used =
     (if c = CHR ''%'' then Inl ValueError
      else if used then Inr [c] else Inl TypeError)"
| "percent_scan (c # d # rest) arg used =
     (if c \<noteq> CHR ''%''
      then (case percent_scan (d # rest) arg used of
              Inl e \<Rightarrow> Inl e | Inr out \<Rightarrow> Inr (c # out))
      else if d = CHR ''%''
      then (case percent_scan rest arg used of
              Inl e \<Rightarrow> Inl e | Inr out \<Rightarrow> Inr (CHR ''%'' # out))
      else if d = CHR ''s''
      then (if used then Inl TypeError
            else (case percent_scan rest arg True of
                    Inl e \<Rightarrow> Inl e | Inr out \<Rightarrow> Inr (arg @ out)))
      else if d \<in> set ''diouxXeEfFgG'' then Inl TypeError
      else Inl ValueError)"

text \<open>
  Helpers for the subtitle functions: the video of a prefix is \<open><prefix>-video\<close>, a
  template is completed as Python's \<open>%\<close> does, every subtitle can be fetched, and the
  request for the language list fails with the given exception.
\<close>

definition example_helpers :: "py_error \<Rightarrow> string helpers" where
  "example_helpers e =
     \<lparr>get_filename_from_prefix = (\<lambda>dir_files target_dir filename_prefix.
          Some (filename_prefix @ ''-video'')),
      get_page_contents_as_json_langs = (\<lambda>page_url. Inl e),
      get_page_contents_as_json = (\<lambda>page_url. Inr page_url),
      edx_json2srt = (\<lambda>json_object. Inr (''srt of '' @ json_object)),
      percent_format = (\<lambda>template sub_lang. percent_scan template sub_lang False)\<rparr>"

definition example_world :: world where
  "example_world = \<lparr>files = Map.empty, cwd = ''/home'', written = [], fetched = []\<rparr>"

section \<open>Properties of the deduplication\<close>

lemma claimed_simps [simp]:
  "claimed {} = {}"
  "claimed (insert (Some u) E) = insert u (claimed E)"
  "claimed (insert None E) = claimed E"
  by (auto simp: claimed_def)

lemma claimed_mem: "Some u \<in> E \<longleftrightarrow> u \<in> claimed E"
  by (simp add: claimed_def)

lemma keep_new_urls_eq:
  "keep_new_urls E us kept =
     (E \<union> Some ` set us, kept @ first_occurrences (claimed E) us)"
proof (induction us arbitrary: E kept)
  case Nil
  then show ?case by simp
next
  case (Cons u us)
  show ?case
  proof (cases "Some u \<in> E")
    case True
    then show ?thesis using Cons.IH [of E kept] by (auto simp: claimed_mem)
  next
    case False
    then show ?thesis using Cons.IH [of "insert (Some u) E" "kept @ [u]"]
      by (auto simp: claimed_mem)
  qed
qed

lemma claimed_Un_Some [simp]: "claimed (E \<union> Some ` S) = claimed E \<union> S"
  by (auto simp: claimed_def)

lemma first_occurrences_append:
  "first_occurrences S (xs @ ys) = first_occurrences S xs @ first_occurrences (S \<union> set xs) ys"
  by (induction xs arbitrary: S) (auto simp: insert_absorb)

lemma set_first_occurrences: "set (first_occurrences S xs) = set xs - S"
  by (induction xs arbitrary: S) auto

lemma distinct_first_occurrences: "distinct (first_occurrences S xs)"
  by (induction xs arbitrary: S) (auto simp: set_first_occurrences)

lemma first_occurrences_empty_iff: "first_occurrences S xs = [] \<longleftrightarrow> set xs \<subseteq> S"
  using set_first_occurrences [of S xs] by (metis Diff_eq_empty_iff set_empty)

lemma dedup_fields_eq:
  assumes "dedup_fields E unit = (video, mp4s, ress, E')"
  shows "(case video of None \<Rightarrow> [] | Some v \<Rightarrow> [v]) @ mp4s @ ress
           = first_occurrences (claimed E) (unit_urls unit)"
    and "claimed E' = claimed E \<union> set (unit_urls unit)"
proof -
  obtain v a s m r where u: "unit = \<lparr>video_youtube_url = v, available_subs_url = a,
      sub_template_url = s, mp4_urls = m, resources_urls = r\<rparr>"
    by (cases unit) auto
  show "(case video of None \<Rightarrow> [] | Some v \<Rightarrow> [v]) @ mp4s @ ress
           = first_occurrences (claimed E) (unit_urls unit)"
  proof (cases v)
    case None
    then show ?thesis using assms
      by (auto simp: u dedup_fields_def keep_new_urls_eq unit_urls_def
          first_occurrences_append split: if_splits)
  next
    case (Some x)
    then show ?thesis using assms
      by (auto simp: u dedup_fields_def keep_new_urls_eq unit_urls_def
          first_occurrences_append claimed_mem insert_absorb split: if_splits)
  qed
  show "claimed E' = claimed E \<union> set (unit_urls unit)"
  proof (cases v)
    case None
    then show ?thesis using assms
      by (auto simp: u dedup_fields_def keep_new_urls_eq unit_urls_def split: if_splits)
  next
    case (Some x)
    then show ?thesis using assms
      by (auto simp: u dedup_fields_def keep_new_urls_eq unit_urls_def claimed_mem
          split: if_splits)
  qed
qed

lemma reduce_unit_acc:
  "reduce_unit E u acc = (fst (reduce_unit E u []), acc @ snd (reduce_unit E u []))"
  by (auto simp: reduce_unit_def split: prod.splits)

lemma reduce_units_acc:
  "reduce_units E us acc = (fst (reduce_units E us []), acc @ snd (reduce_units E us []))"
proof (induction us arbitrary: E acc)
  case Nil
  then show ?case by simp
next
  case (Cons u us)
  obtain E1 r1 where r: "reduce_unit E u [] = (E1, r1)" by (cases "reduce_unit E u []")
  have r': "reduce_unit E u acc = (E1, acc @ r1)"
    using reduce_unit_acc [of E u acc] r by simp
  show ?case
    using Cons.IH [of E1 "acc @ r1"] Cons.IH [of E1 r1] r r' by simp
qed

lemma reduce_units_Cons:
  "reduce_units E (u # us) [] =
     (fst (reduce_units (fst (reduce_unit E u [])) us []),
      snd (reduce_unit E u []) @ snd (reduce_units (fst (reduce_unit E u [])) us []))"
proof -
  obtain E1 r1 where r: "reduce_unit E u [] = (E1, r1)" by (cases "reduce_unit E u []")
  show ?thesis using r reduce_units_acc [of E1 us r1] by simp
qed

lemma reduce_unit_urls:
  "units_urls (snd (reduce_unit E u [])) = first_occurrences (claimed E) (unit_urls u)"
  "claimed (fst (reduce_unit E u [])) = claimed E \<union> set (unit_urls u)"
proof -
  obtain video mp4s ress E' where d: "dedup_fields E u = (video, mp4s, ress, E')"
    by (cases "dedup_fields E u") auto
  note e = dedup_fields_eq [OF d]
  show "units_urls (snd (reduce_unit E u [])) = first_occurrences (claimed E) (unit_urls u)"
    using e(1) by (auto simp: reduce_unit_def d units_urls_def unit_urls_def)
  show "claimed (fst (reduce_unit E u [])) = claimed E \<union> set (unit_urls u)"
    using e(2) by (auto simp: reduce_unit_def d)
qed

lemma units_urls_append [simp]: "units_urls (xs @ ys) = units_urls xs @ units_urls ys"
  by (simp add: units_urls_def)

lemma units_urls_Cons [simp]: "units_urls (x # xs) = unit_urls x @ units_urls xs"
  by (simp add: units_urls_def)

lemma units_urls_Nil [simp]: "units_urls [] = []"
  by (simp add: units_urls_def)

lemma reduce_units_urls:
  "units_urls (snd (reduce_units E us [])) = first_occurrences (claimed E) (units_urls us)
   \<and> claimed (fst (reduce_units E us [])) = claimed E \<union> set (units_urls us)"
proof (induction us arbitrary: E)
  case Nil
  then show ?case by simp
next
  case (Cons u us)
  show ?case
    using Cons.IH [of "fst (reduce_unit E u [])"]
    by (simp add: reduce_units_Cons reduce_unit_urls first_occurrences_append Un_assoc
        del: reduce_units.simps)
qed

lemma dict_urls_simps [simp]:
  "dict_urls [] = []"
  "dict_urls ((k, us) # d) = units_urls us @ dict_urls d"
  "dict_urls (d @ d') = dict_urls d @ dict_urls d'"
  by (simp_all add: dict_urls_def)

lemma walk_items_urls:
  "dict_urls (walk_items E items) = first_occurrences (claimed E) (dict_urls items)"
proof (induction items arbitrary: E)
  case Nil
  then show ?case by simp
next
  case (Cons p items)
  obtain k us where p: "p = (k, us)" by (cases p)
  show ?case
    using Cons.IH [of "fst (reduce_units E us [])"]
    by (simp add: p reduce_units_urls first_occurrences_append)
qed

lemma walk_items_keys: "map fst (walk_items E items) = map fst items"
  by (induction E items rule: walk_items.induct) auto

lemma update_fresh_key: "k \<notin> fst ` set al \<Longrightarrow> AList.update k v al = al @ [(k, v)]"
  by (induction al) auto

lemma filter_items_walk:
  "distinct (map fst items) \<Longrightarrow> fst ` set items \<inter> fst ` set acc = {} \<Longrightarrow>
     filter_items E items acc = acc @ walk_items E items"
proof (induction items arbitrary: E acc)
  case Nil
  then show ?case by simp
next
  case (Cons p items)
  obtain k us where p: "p = (k, us)" by (cases p)
  obtain E1 red where r: "reduce_units E us [] = (E1, red)" by (cases "reduce_units E us []")
  have k: "k \<notin> fst ` set acc" using Cons.prems(2) by (auto simp: p)
  have upd: "AList.update k red acc = acc @ [(k, red)]" by (rule update_fresh_key [OF k])
  have "filter_items E1 items (acc @ [(k, red)]) = (acc @ [(k, red)]) @ walk_items E1 items"
    by (rule Cons.IH) (use Cons.prems in \<open>auto simp: p\<close>)
  then show ?case by (simp add: p r upd)
qed

lemma remove_repeated_urls_walk:
  "distinct (map fst all_units) \<Longrightarrow> remove_repeated_urls all_units = walk_items {} all_units"
  using filter_items_walk [of all_units "[]" "{}"] by (simp add: remove_repeated_urls_def)

text \<open>
  Storing the reduced units of an item keeps the urls of the map under construction
  distinct, also when the key is already there and its old value is replaced.
\<close>

lemma dict_urls_update:
  "distinct (dict_urls al) \<Longrightarrow> distinct (units_urls v) \<Longrightarrow>
   set (units_urls v) \<inter> set (dict_urls al) = {} \<Longrightarrow>
     distinct (dict_urls (AList.update k v al)) \<and>
     set (dict_urls (AList.update k v al)) \<subseteq> set (dict_urls al) \<union> set (units_urls v)"
proof (induction al)
  case Nil
  then show ?case by simp
next
  case (Cons p al)
  obtain k' us where p: "p = (k', us)" by (cases p)
  show ?case using Cons by (auto simp: p)
qed

lemma filter_items_distinct:
  "distinct (dict_urls acc) \<Longrightarrow> set (dict_urls acc) \<subseteq> claimed E \<Longrightarrow>
     distinct (dict_urls (filter_items E items acc))"
proof (induction items arbitrary: E acc)
  case Nil
  then show ?case by simp
next
  case (Cons p items)
  obtain k us where p: "p = (k, us)" by (cases p)
  obtain E1 red where r: "reduce_units E us [] = (E1, red)" by (cases "reduce_units E us []")
  have red: "units_urls red = first_occurrences (claimed E) (units_urls us)"
    and E1: "claimed E1 = claimed E \<union> set (units_urls us)"
    using reduce_units_urls [of E us] r by simp_all
  have d: "distinct (units_urls red)" by (simp add: red distinct_first_occurrences)
  have dj: "set (units_urls red) \<inter> set (dict_urls acc) = {}"
    using Cons.prems(2) by (auto simp: red set_first_occurrences)
  note u = dict_urls_update [OF Cons.prems(1) d dj, of k]
  have "distinct (dict_urls (filter_items E1 items (AList.update k red acc)))"
  proof (rule Cons.IH)
    show "distinct (dict_urls (AList.update k red acc))" using u by simp
    show "set (dict_urls (AList.update k red acc)) \<subseteq> claimed E1"
      using u Cons.prems(2) by (auto simp: E1 red set_first_occurrences)
  qed
  then show ?case by (simp add: p r)
qed

text \<open>
  Claim C2. In the map returned by \<open>remove_repeated_urls\<close> no url occurs twice: the urls of
  all \<open>video_youtube_url\<close>, \<open>mp4_urls\<close> and \<open>resources_urls\<close> fields, listed over the whole
  map, are pairwise distinct. This holds for every input.
\<close>

theorem dedup_uniqueness: "distinct (dict_urls (remove_repeated_urls all_units))"
  unfolding remove_repeated_urls_def by (rule filter_items_distinct) simp_all

lemma reduce_units_append:
  "reduce_units E (xs @ ys) [] =
     (fst (reduce_units (fst (reduce_units E xs [])) ys []),
      snd (reduce_units E xs []) @ snd (reduce_units (fst (reduce_units E xs [])) ys []))"
proof (induction xs arbitrary: E)
  case Nil
  then show ?case by simp
next
  case (Cons x xs)
  have "reduce_units E ((x # xs) @ ys) [] = reduce_units E (x # (xs @ ys)) []" by simp
  also have "\<dots> = (fst (reduce_units (fst (reduce_unit E x [])) (xs @ ys) []),
      snd (reduce_unit E x []) @ snd (reduce_units (fst (reduce_unit E x [])) (xs @ ys) []))"
    by (rule reduce_units_Cons)
  finally show ?case
    using Cons.IH [of "fst (reduce_unit E x [])"]
    by (simp add: reduce_units_Cons [of E x xs] del: reduce_units.simps)
qed

lemma walk_items_append:
  "\<exists>E'. walk_items E (xs @ ys) = walk_items E xs @ walk_items E' ys
        \<and> claimed E' = claimed E \<union> set (dict_urls xs)"
proof (induction xs arbitrary: E)
  case Nil
  show ?case by (rule exI [of _ E]) simp
next
  case (Cons p xs)
  obtain k us where p: "p = (k, us)" by (cases p)
  obtain E' where E': "walk_items (fst (reduce_units E us [])) (xs @ ys)
       = walk_items (fst (reduce_units E us [])) xs @ walk_items E' ys"
     "claimed E' = claimed (fst (reduce_units E us [])) \<union> set (dict_urls xs)"
    using Cons.IH [of "fst (reduce_units E us [])"] by blast
  show ?case
    by (rule exI [of _ E']) (simp add: p E' reduce_units_urls Un_assoc)
qed

lemma reduce_unit_cases:
  "dedup_fields E unit = (video, mp4s, ress, E') \<Longrightarrow>
   reduce_unit E unit [] =
     (E', if video = None \<and> mp4s = [] \<and> ress = [] then []
          else [\<lparr>video_youtube_url = video,
                 available_subs_url = available_subs_url unit,
                 sub_template_url = sub_template_url unit,
                 mp4_urls = mp4s,
                 resources_urls = ress\<rparr>])"
  by (auto simp: reduce_unit_def)

lemma map_of_middle:
  "k \<notin> fst ` set xs \<Longrightarrow> map_of (xs @ (k, v) # ys) k = Some v"
  by (induction xs) auto

lemma reduce_units_empty_iff:
  "snd (reduce_units E us []) = [] \<longleftrightarrow> set (units_urls us) \<subseteq> claimed E"
proof -
  have "snd (reduce_units E us []) = [] \<longleftrightarrow> units_urls (snd (reduce_units E us [])) = []"
  proof
    assume "units_urls (snd (reduce_units E us [])) = []"
    then show "snd (reduce_units E us []) = []"
    proof (induction us arbitrary: E)
      case Nil
      then show ?case by simp
    next
      case (Cons u us)
      obtain video mp4s ress E' where d: "dedup_fields E u = (video, mp4s, ress, E')"
        by (cases "dedup_fields E u") auto
      have e: "units_urls (snd (reduce_unit E u [])) = []"
        "units_urls (snd (reduce_units (fst (reduce_unit E u [])) us [])) = []"
        using Cons.prems by (simp_all add: reduce_units_Cons del: reduce_units.simps)
      have "snd (reduce_unit E u []) = []"
        using e(1) by (auto simp: reduce_unit_cases [OF d] unit_urls_def split: if_splits)
      then show ?case using Cons.IH [OF e(2)]
        by (simp add: reduce_units_Cons del: reduce_units.simps)
    qed
  qed simp
  then show ?thesis
    by (simp add: reduce_units_urls first_occurrences_empty_iff)
qed

lemma count_list_distinct: "distinct xs \<Longrightarrow> x \<in> set xs \<Longrightarrow> count_list xs x = 1"
  by (induction xs) auto

lemma remove_repeated_urls_at:
  assumes "distinct (dict_keys all_units)" and "all_units = pre @ (k, us) # post"
  shows "\<exists>E0. claimed E0 = set (dict_urls pre) \<and>
          map_of (remove_repeated_urls all_units) k = Some (snd (reduce_units E0 us []))"
proof -
  have out: "remove_repeated_urls all_units = walk_items {} all_units"
    using assms(1) by (simp add: remove_repeated_urls_walk dict_keys_def)
  obtain E0 where E0: "walk_items {} (pre @ (k, us) # post)
        = walk_items {} pre @ walk_items E0 ((k, us) # post)"
      "claimed E0 = claimed {} \<union> set (dict_urls pre)"
    using walk_items_append [of "{}" pre "(k, us) # post"] by blast
  have k: "k \<notin> fst ` set (walk_items {} pre)"
  proof -
    have "fst ` set (walk_items {} pre) = set (map fst (walk_items {} pre))" by simp
    also have "\<dots> = set (map fst pre)" by (simp only: walk_items_keys)
    finally show ?thesis using assms by (auto simp: dict_keys_def)
  qed
  have "remove_repeated_urls all_units =
      walk_items {} pre @ (k, snd (reduce_units E0 us [])) # walk_items (fst (reduce_units E0 us [])) post"
    unfolding out unfolding assms(2) E0(1) by simp
  then have "map_of (remove_repeated_urls all_units) k = Some (snd (reduce_units E0 us []))"
    by (simp only: map_of_middle [OF k])
  then show ?thesis using E0(2) by auto
qed

lemma reduce_units_split:
  "snd (reduce_units E (us1 @ unit # us2) []) =
     snd (reduce_units E us1 []) @
     snd (reduce_unit (fst (reduce_units E us1 [])) unit []) @
     snd (reduce_units (fst (reduce_unit (fst (reduce_units E us1 [])) unit [])) us2 [])"
  by (simp add: reduce_units_append [of E us1] reduce_units_Cons [of _ unit us2]
      del: reduce_units.simps)

lemma dict_urls_member:
  "(k, v) \<in> set d \<Longrightarrow> u \<in> set (units_urls v) \<Longrightarrow> u \<in> set (dict_urls d)"
  by (induction d) auto

lemma count_list_two_entries:
  "(k1, v1) \<in> set d \<Longrightarrow> (k2, v2) \<in> set d \<Longrightarrow> k1 \<noteq> k2 \<Longrightarrow>
   u \<in> set (units_urls v1) \<Longrightarrow> u \<in> set (units_urls v2) \<Longrightarrow>
     2 \<le> count_list (dict_urls d) u"
proof (induction d)
  case Nil
  then show ?case by simp
next
  case (Cons p d)
  obtain k v where p: "p = (k, v)" by (cases p)
  have pos: "x \<in> set xs \<Longrightarrow> 1 \<le> count_list xs x" for x :: string and xs
    using count_list_0_iff [of xs x] by (cases "count_list xs x") auto
  consider "(k1, v1) = (k, v)" "(k2, v2) \<in> set d"
    | "(k2, v2) = (k, v)" "(k1, v1) \<in> set d"
    | "(k1, v1) \<in> set d" "(k2, v2) \<in> set d"
    using Cons.prems(1,2,3) by (auto simp: p)
  then show ?case
  proof cases
    case 1
    then show ?thesis
      using pos [of u "units_urls v"] pos [OF dict_urls_member [OF 1(2) Cons.prems(5)]] Cons.prems(4)
      by (simp add: p)
  next
    case 2
    then show ?thesis
      using pos [of u "units_urls v"] pos [OF dict_urls_member [OF 2(2) Cons.prems(4)]] Cons.prems(5)
      by (simp add: p)
  next
    case 3
    then show ?thesis using Cons.IH [OF 3 Cons.prems(3,4,5)] by (simp add: p)
  qed
qed

lemma unique_url_one_subsection:
  assumes "count_list (dict_urls d) u = 1"
    and "map_of d k = Some v" and "u \<in> set (units_urls v)"
    and "map_of d k' = Some v'" and "k' \<noteq> k"
  shows "u \<notin> set (units_urls v')"
proof
  assume "u \<in> set (units_urls v')"
  then have "2 \<le> count_list (dict_urls d) u"
    using count_list_two_entries [OF map_of_SomeD [OF assms(2)] map_of_SomeD [OF assms(4)]]
      assms(3,5) by blast
  then show False using assms(1) by simp
qed

subsection \<open>The worked example, evaluated\<close>

lemmas example_defs = example_units_def unit_a_def unit_b_def unit_c_def
lemmas dedup_defs = remove_repeated_urls_def reduce_unit_def dedup_fields_def

lemma example_filtered: "remove_repeated_urls example_units =
  [(''/s1'', [unit_a]), (''/s2'', []),
   (''/s3'', [\<lparr>video_youtube_url = None, available_subs_url = None,
               sub_template_url = Some ''/tmpl3/%s'', mp4_urls = [''http://x/b.mp4''],
               resources_urls = []\<rparr>])]"
  by (simp add: example_defs dedup_defs)

lemma example_keys: "distinct (dict_keys example_units)"
  by (simp add: example_units_def dict_keys_def)

lemma example_count_all: "num_urls_in_units_dict example_units = 13"
  by (simp add: num_urls_in_units_dict_def dict_values_def unit_num_urls_def example_defs)

lemma example_count_filtered:
  "num_urls_in_units_dict (remove_repeated_urls example_units) = 7"
  by (simp add: example_filtered num_urls_in_units_dict_def dict_values_def unit_num_urls_def
      unit_a_def)

lemmas example_counts = example_count_all example_count_filtered

text \<open>
  Witness for claim C2: the urls left in the example, in traversal order.
\<close>

theorem dedup_uniqueness_witness:
  "dict_urls (remove_repeated_urls example_units) =
     [''yt1'', ''http://x/a.mp4'', ''http://x/slides.pdf'', ''http://x/b.mp4''] \<and>
   distinct (dict_urls (remove_repeated_urls example_units))"
  using dedup_uniqueness [of example_units]
  by (simp add: example_filtered dict_urls_def units_urls_def unit_urls_def unit_a_def)

subsection \<open>First occurrence wins\<close>

text \<open>
  Claim C3. Let the keys of the map be distinct and let \<open>u\<close> be an url of \<open>unit\<close>, a unit of
  subsection \<open>k\<close>, such that \<open>u\<close> occurs in no subsection before \<open>k\<close> and in no unit before
  \<open>unit\<close> in \<open>k\<close>: \<open>unit\<close> holds the first occurrence of \<open>u\<close> in traversal order. Then the
  filtered sequence of \<open>k\<close> has a unit \<open>r\<close> that retains \<open>u\<close>; \<open>r\<close> carries the subtitle
  fields of \<open>unit\<close> and only urls of \<open>unit\<close>, and stands between what is left of the units
  before and of the units after \<open>unit\<close>. Every later occurrence is removed: \<open>u\<close> occurs
  exactly once in the whole filtered map, and in no other subsection of it.
\<close>

theorem first_occurrence_wins:
  assumes "distinct (dict_keys all_units)"
    and "all_units = pre @ (k, us1 @ unit # us2) # post"
    and "u \<in> set (unit_urls unit)"
    and "u \<notin> set (dict_urls pre)"
    and "u \<notin> set (units_urls us1)"
  shows "(\<exists>A r B. map_of (remove_repeated_urls all_units) k = Some (A @ r # B) \<and>
            u \<in> set (unit_urls r) \<and>
            available_subs_url r = available_subs_url unit \<and>
            sub_template_url r = sub_template_url unit \<and>
            set (unit_urls r) \<subseteq> set (unit_urls unit) \<and>
            set (units_urls A) \<subseteq> set (units_urls us1) \<and>
            set (units_urls B) \<subseteq> set (units_urls us2)) \<and>
         count_list (dict_urls (remove_repeated_urls all_units)) u = 1 \<and>
         (\<forall>k' us'. k' \<noteq> k \<and> map_of (remove_repeated_urls all_units) k' = Some us' \<longrightarrow>
            u \<notin> set (units_urls us'))"
proof -
  obtain E0 where E0: "claimed E0 = set (dict_urls pre)"
    and m: "map_of (remove_repeated_urls all_units) k =
              Some (snd (reduce_units E0 (us1 @ unit # us2) []))"
    using remove_repeated_urls_at [OF assms(1,2)] by blast
  define E1 where "E1 = fst (reduce_units E0 us1 [])"
  define A where "A = snd (reduce_units E0 us1 [])"
  define R where "R = snd (reduce_unit E1 unit [])"
  define B where "B = snd (reduce_units (fst (reduce_unit E1 unit [])) us2 [])"
  have split: "snd (reduce_units E0 (us1 @ unit # us2) []) = A @ R @ B"
    unfolding A_def R_def B_def E1_def by (rule reduce_units_split)
  have cE1: "claimed E1 = set (dict_urls pre) \<union> set (units_urls us1)"
    unfolding E1_def using reduce_units_urls [of E0 us1] E0 by simp
  have uE1: "u \<notin> claimed E1" using assms(4,5) cE1 by simp
  have Rurls: "units_urls R = first_occurrences (claimed E1) (unit_urls unit)"
    unfolding R_def by (rule reduce_unit_urls)
  have uR: "u \<in> set (units_urls R)"
    using uE1 assms(3) by (simp add: Rurls set_first_occurrences)
  obtain video mp4s ress E2 where d: "dedup_fields E1 unit = (video, mp4s, ress, E2)"
    by (cases "dedup_fields E1 unit") auto
  define r where "r = \<lparr>video_youtube_url = video,
                 available_subs_url = available_subs_url unit,
                 sub_template_url = sub_template_url unit,
                 mp4_urls = mp4s,
                 resources_urls = ress\<rparr>"
  have "R \<noteq> []" using uR by auto
  then have R: "R = [r]"
    unfolding R_def r_def by (auto simp: reduce_unit_cases [OF d] split: if_splits)
  have ur: "u \<in> set (unit_urls r)" using uR by (simp add: R)
  have sub_r: "set (unit_urls r) \<subseteq> set (unit_urls unit)"
    using Rurls by (auto simp: R set_first_occurrences dest: arg_cong [where f = set])
  have sub_A: "set (units_urls A) \<subseteq> set (units_urls us1)"
    unfolding A_def using reduce_units_urls [of E0 us1] by (auto simp: set_first_occurrences)
  have sub_B: "set (units_urls B) \<subseteq> set (units_urls us2)"
    unfolding B_def using reduce_units_urls [of "fst (reduce_unit E1 unit [])" us2]
    by (auto simp: set_first_occurrences)
  have m': "map_of (remove_repeated_urls all_units) k = Some (A @ r # B)"
    using m by (simp add: split R)
  have retained: "\<exists>A r B. map_of (remove_repeated_urls all_units) k = Some (A @ r # B) \<and>
            u \<in> set (unit_urls r) \<and>
            available_subs_url r = available_subs_url unit \<and>
            sub_template_url r = sub_template_url unit \<and>
            set (unit_urls r) \<subseteq> set (unit_urls unit) \<and>
            set (units_urls A) \<subseteq> set (units_urls us1) \<and>
            set (units_urls B) \<subseteq> set (units_urls us2)"
    apply (rule exI [of _ A], rule exI [of _ r], rule exI [of _ B])
    using m' ur sub_r sub_A sub_B by (simp add: r_def)
  have out: "dict_urls (remove_repeated_urls all_units) = first_occurrences {} (dict_urls all_units)"
    using assms(1) walk_items_urls [of "{}" all_units]
    by (simp add: remove_repeated_urls_walk dict_keys_def)
  have "u \<in> set (dict_urls all_units)"
    using assms(3) by (simp add: assms(2))
  then have once: "count_list (dict_urls (remove_repeated_urls all_units)) u = 1"
    unfolding out
    by (intro count_list_distinct distinct_first_occurrences) (simp add: set_first_occurrences)
  have here: "u \<in> set (units_urls (A @ r # B))" using ur by simp
  have elsewhere: "\<forall>k' us'. k' \<noteq> k \<and> map_of (remove_repeated_urls all_units) k' = Some us' \<longrightarrow>
            u \<notin> set (units_urls us')"
    using unique_url_one_subsection [OF once m' here] by blast
  show ?thesis
    by (intro conjI) (rule retained, rule once, rule elsewhere)
qed

text \<open>
  Witness for claim C3: the mp4 file shared by the three subsections of the example stays
  with the unit of \<open>/s1\<close>.
\<close>

theorem first_occurrence_wins_witness:
  "distinct (dict_keys example_units) \<and>
   example_units = [] @ (''/s1'', [] @ unit_a # []) # [(''/s2'', [unit_b]), (''/s3'', [unit_c])] \<and>
   ''http://x/a.mp4'' \<in> set (unit_urls unit_a) \<and>
   ''http://x/a.mp4'' \<notin> set (dict_urls []) \<and>
   ''http://x/a.mp4'' \<notin> set (units_urls []) \<and>
   (\<exists>A r B. map_of (remove_repeated_urls example_units) ''/s1'' = Some (A @ r # B) \<and>
      ''http://x/a.mp4'' \<in> set (unit_urls r) \<and>
      available_subs_url r = available_subs_url unit_a \<and>
      sub_template_url r = sub_template_url unit_a \<and>
      set (unit_urls r) \<subseteq> set (unit_urls unit_a) \<and>
      set (units_urls A) \<subseteq> set (units_urls []) \<and>
      set (units_urls B) \<subseteq> set (units_urls [])) \<and>
   count_list (dict_urls (remove_repeated_urls example_units)) ''http://x/a.mp4'' = 1 \<and>
   map_of (remove_repeated_urls example_units) ''/s3'' =
     Some [\<lparr>video_youtube_url = None, available_subs_url = None,
            sub_template_url = Some ''/tmpl3/%s'', mp4_urls = [''http://x/b.mp4''],
            resources_urls = []\<rparr>] \<and>
   ''http://x/a.mp4'' \<notin> set (units_urls
     [\<lparr>video_youtube_url = None, available_subs_url = None,
       sub_template_url = Some ''/tmpl3/%s'', mp4_urls = [''http://x/b.mp4''],
       resources_urls = []\<rparr>])"
proof -
  have h2: "example_units =
      [] @ (''/s1'', [] @ unit_a # []) # [(''/s2'', [unit_b]), (''/s3'', [unit_c])]"
    by (simp add: example_units_def)
  have h3: "''http://x/a.mp4'' \<in> set (unit_urls unit_a)"
    by (simp add: unit_urls_def unit_a_def)
  have h4: "''http://x/a.mp4'' \<notin> set (dict_urls [])" by simp
  have h5: "''http://x/a.mp4'' \<notin> set (units_urls [])" by simp
  have s3: "map_of (remove_repeated_urls example_units) ''/s3'' =
     Some [\<lparr>video_youtube_url = None, available_subs_url = None,
            sub_template_url = Some ''/tmpl3/%s'', mp4_urls = [''http://x/b.mp4''],
            resources_urls = []\<rparr>]"
    by (simp add: example_filtered)
  have ne: "''/s3'' \<noteq> ''/s1''" by simp
  note w = first_occurrence_wins [OF example_keys h2 h3 h4 h5]
  note a = w [THEN conjunct1]
  note b = w [THEN conjunct2, THEN conjunct1]
  note c = w [THEN conjunct2, THEN conjunct2, rule_format, OF conjI, OF ne s3]
  show ?thesis
    using example_keys h2 h3 h4 h5 a b s3 c by (intro conjI) assumption+
qed

subsection \<open>Subtitle fields and dropped units\<close>

text \<open>
  Claim C7. Let the keys be distinct and \<open>unit\<close> a unit of subsection \<open>k\<close>, after the units
  \<open>us1\<close> and before the units \<open>us2\<close>. With \<open>video\<close>, \<open>mp4s\<close> and \<open>ress\<close> the three fields
  of \<open>unit\<close> after deduplication (against the urls claimed by the earlier subsections and by
  \<open>us1\<close>), the filtered sequence of \<open>k\<close> is: what is left of \<open>us1\<close>; then nothing exactly
  when \<open>video\<close> is absent and \<open>mp4s\<close> and \<open>ress\<close> are empty, and otherwise the one unit
  with these three fields and with \<open>available_subs_url\<close> and \<open>sub_template_url\<close> of \<open>unit\<close>
  unchanged; then what is left of \<open>us2\<close>.
\<close>

theorem subtitle_fields_carried_and_drop_rule:
  assumes "distinct (dict_keys all_units)"
    and "all_units = pre @ (k, us1 @ unit # us2) # post"
  shows "\<exists>E0 E1 video mp4s ress E2.
           claimed E0 = set (dict_urls pre) \<and>
           E1 = fst (reduce_units E0 us1 []) \<and>
           dedup_fields E1 unit = (video, mp4s, ress, E2) \<and>
           map_of (remove_repeated_urls all_units) k =
             Some (snd (reduce_units E0 us1 []) @
                   (if video = None \<and> mp4s = [] \<and> ress = [] then []
                    else [\<lparr>video_youtube_url = video,
                           available_subs_url = available_subs_url unit,
                           sub_template_url = sub_template_url unit,
                           mp4_urls = mp4s,
                           resources_urls = ress\<rparr>]) @
                   snd (reduce_units E2 us2 []))"
proof -
  obtain E0 where c: "claimed E0 = set (dict_urls pre)"
    and m: "map_of (remove_repeated_urls all_units) k =
              Some (snd (reduce_units E0 (us1 @ unit # us2) []))"
    using remove_repeated_urls_at [OF assms] by blast
  define E1 where "E1 = fst (reduce_units E0 us1 [])"
  obtain video mp4s ress E2 where d: "dedup_fields E1 unit = (video, mp4s, ress, E2)"
    by (cases "dedup_fields E1 unit") auto
  have red: "snd (reduce_units E0 (us1 @ unit # us2) []) =
      snd (reduce_units E0 us1 []) @ snd (reduce_unit E1 unit []) @ snd (reduce_units E2 us2 [])"
    using reduce_unit_cases [OF d] by (simp add: reduce_units_split [of E0 us1 unit us2] E1_def)
  have m': "map_of (remove_repeated_urls all_units) k =
      Some (snd (reduce_units E0 us1 []) @
            (if video = None \<and> mp4s = [] \<and> ress = [] then []
             else [\<lparr>video_youtube_url = video,
                    available_subs_url = available_subs_url unit,
                    sub_template_url = sub_template_url unit,
                    mp4_urls = mp4s,
                    resources_urls = ress\<rparr>]) @
            snd (reduce_units E2 us2 []))"
    using m by (simp only: red reduce_unit_cases [OF d] snd_conv)
  show ?thesis
    apply (rule exI [of _ E0], rule exI [of _ E1], rule exI [of _ video])
    apply (rule exI [of _ mp4s], rule exI [of _ ress], rule exI [of _ E2])
    using c d m' E1_def by blast
qed

text \<open>
  Witness for claim C7, at the unit of \<open>/s2\<close> in the example.
\<close>

theorem subtitle_fields_carried_and_drop_rule_witness:
  "distinct (dict_keys example_units) \<and>
   example_units = [(''/s1'', [unit_a])] @ (''/s2'', [] @ unit_b # []) # [(''/s3'', [unit_c])] \<and>
   (\<exists>E0 E1 video mp4s ress E2.
      claimed E0 = set (dict_urls [(''/s1'', [unit_a])]) \<and>
      E1 = fst (reduce_units E0 [] []) \<and>
      dedup_fields E1 unit_b = (video, mp4s, ress, E2) \<and>
      map_of (remove_repeated_urls example_units) ''/s2'' =
        Some (snd (reduce_units E0 [] []) @
              (if video = None \<and> mp4s = [] \<and> ress = [] then []
               else [\<lparr>video_youtube_url = video,
                      available_subs_url = available_subs_url unit_b,
                      sub_template_url = sub_template_url unit_b,
                      mp4_urls = mp4s,
                      resources_urls = ress\<rparr>]) @
              snd (reduce_units E2 [] [])))"
proof -
  have h2: "example_units =
      [(''/s1'', [unit_a])] @ (''/s2'', [] @ unit_b # []) # [(''/s3'', [unit_c])]"
    by (simp add: example_units_def)
  from subtitle_fields_carried_and_drop_rule [OF example_keys h2] example_keys h2
  show ?thesis by blast
qed

subsection \<open>Keys\<close>

text \<open>
  Claim C10. For a map with distinct keys \<open>remove_repeated_urls\<close> returns a map with the
  same keys in the same order. A subsection is mapped to the empty sequence exactly when
  all the urls of its units occur in earlier subsections (so that every unit of it is
  dropped); its key stays in the map.
\<close>

theorem dedup_preserves_keys:
  assumes "distinct (dict_keys all_units)"
  shows "dict_keys (remove_repeated_urls all_units) = dict_keys all_units \<and>
         (\<forall>pre k us post. all_units = pre @ (k, us) # post \<longrightarrow>
            (map_of (remove_repeated_urls all_units) k = Some [] \<longleftrightarrow>
               set (units_urls us) \<subseteq> set (dict_urls pre)))"
proof (intro conjI allI impI)
  have out: "remove_repeated_urls all_units = walk_items {} all_units"
    using assms by (simp add: remove_repeated_urls_walk dict_keys_def)
  show "dict_keys (remove_repeated_urls all_units) = dict_keys all_units"
    by (simp add: out dict_keys_def walk_items_keys)
  fix pre k us post
  assume a: "all_units = pre @ (k, us) # post"
  obtain E0 where c: "claimed E0 = set (dict_urls pre)"
    and m: "map_of (remove_repeated_urls all_units) k = Some (snd (reduce_units E0 us []))"
    using remove_repeated_urls_at [OF assms a] by blast
  show "map_of (remove_repeated_urls all_units) k = Some [] \<longleftrightarrow>
               set (units_urls us) \<subseteq> set (dict_urls pre)"
    using c by (simp add: m reduce_units_empty_iff)
qed

text \<open>
  Witness for claim C10: in the example \<open>/s2\<close> loses its only unit and stays as a key.
\<close>

theorem dedup_preserves_keys_witness:
  "distinct (dict_keys example_units) \<and>
   dict_keys (remove_repeated_urls example_units) = [''/s1'', ''/s2'', ''/s3''] \<and>
   set (units_urls [unit_b]) \<subseteq> set (dict_urls [(''/s1'', [unit_a])]) \<and>
   map_of (remove_repeated_urls example_units) ''/s2'' = Some []"
proof -
  have e: "example_units = [(''/s1'', [unit_a])] @ (''/s2'', [unit_b]) # [(''/s3'', [unit_c])]"
    by (simp add: example_units_def)
  have s: "set (units_urls [unit_b]) \<subseteq> set (dict_urls [(''/s1'', [unit_a])])"
    by (simp add: unit_urls_def unit_a_def unit_b_def)
  have k: "dict_keys example_units = [''/s1'', ''/s2'', ''/s3'']"
    by (simp add: dict_keys_def example_units_def)
  from dedup_preserves_keys [OF example_keys] e s
  have "dict_keys (remove_repeated_urls example_units) = dict_keys example_units"
    and "map_of (remove_repeated_urls example_units) ''/s2'' = Some []"
    by blast+
  then show ?thesis using example_keys s k by simp
qed

subsection \<open>Counting\<close>

lemma unit_num_urls_split:
  "unit_num_urls u = int (length (unit_urls u)) + int (subtitle_fields u)"
  by (simp add: unit_num_urls_def unit_urls_def subtitle_fields_def split: option.splits)

lemma unit_num_urls_spec: "unit_num_urls = spec_unit_count"
  by (rule ext) (simp add: unit_num_urls_def spec_unit_count_def split: option.splits)

lemma sum_unit_num_urls:
  "sum_list (map unit_num_urls us) =
     int (length (units_urls us)) + int (sum_list (map subtitle_fields us))"
  by (induction us) (simp_all add: unit_num_urls_split)

lemma reduce_unit_subtitle_fields:
  "sum_list (map subtitle_fields (snd (reduce_unit E u []))) =
     (if set (unit_urls u) \<subseteq> claimed E then 0 else subtitle_fields u)"
proof -
  obtain video mp4s ress E' where d: "dedup_fields E u = (video, mp4s, ress, E')"
    by (cases "dedup_fields E u") auto
  have "(snd (reduce_unit E u []) = []) = (units_urls (snd (reduce_unit E u [])) = [])"
    by (auto simp: reduce_unit_cases [OF d] unit_urls_def split: if_splits)
  then have e: "(snd (reduce_unit E u []) = []) = (set (unit_urls u) \<subseteq> claimed E)"
    by (simp add: reduce_unit_urls first_occurrences_empty_iff)
  show ?thesis
  proof (cases "set (unit_urls u) \<subseteq> claimed E")
    case True
    then show ?thesis using e by simp
  next
    case False
    then have "snd (reduce_unit E u []) \<noteq> []" using e by simp
    then show ?thesis using False
      by (auto simp: reduce_unit_cases [OF d] subtitle_fields_def split: if_splits)
  qed
qed

lemma reduce_units_subtitle_fields:
  "sum_list (map subtitle_fields (snd (reduce_units E us []))) +
     dropped_subtitle_fields (claimed E) us = sum_list (map subtitle_fields us)"
proof (induction us arbitrary: E)
  case Nil
  then show ?case by simp
next
  case (Cons u us)
  show ?case
    using Cons.IH [of "fst (reduce_unit E u [])"]
    by (simp add: reduce_units_Cons reduce_unit_subtitle_fields reduce_unit_urls
        del: reduce_units.simps)
qed

lemma walk_items_records:
  "concat (map snd (walk_items E items)) = snd (reduce_units E (concat (map snd items)) [])"
proof (induction items arbitrary: E)
  case Nil
  then show ?case by simp
next
  case (Cons p items)
  obtain k us where p: "p = (k, us)" by (cases p)
  show ?case
    using Cons.IH [of "fst (reduce_units E us [])"]
    by (simp add: p reduce_units_append [of E us])
qed

lemma units_urls_concat: "units_urls (concat (map snd d)) = dict_urls d"
  by (induction d) (auto simp: units_urls_def dict_urls_def)

lemma length_first_occurrences_empty:
  "length (first_occurrences {} xs) = length (remdups xs)"
proof -
  have "length (first_occurrences {} xs) = card (set (first_occurrences {} xs))"
    by (simp add: distinct_card distinct_first_occurrences)
  also have "\<dots> = card (set xs)" by (simp add: set_first_occurrences)
  also have "\<dots> = length (remdups xs)" by (simp add: length_remdups_card_conv)
  finally show ?thesis .
qed

text \<open>
  Claim C4. \<open>num_urls_in_units_dict\<close> is the sum described by the specification, on the
  input and on the filtered map. For a map with distinct keys the difference of the two
  counts is the number of fields and entries that deduplication removes: the repeated
  occurrences of urls (a \<open>video_youtube_url\<close> set to \<open>None\<close>, an entry left out of
  \<open>mp4_urls\<close> or \<open>resources_urls\<close>) plus the subtitle fields of the units that are dropped.
  Both parts can be read off the filtered map: the first is the number of urls of the input
  minus the number of urls of the filtered map, the second the number of subtitle fields of
  the input minus that of the filtered map.
\<close>

theorem count_conservation:
  assumes "distinct (dict_keys all_units)"
  shows "num_urls_in_units_dict all_units =
           sum_list (map spec_unit_count (concat (dict_values all_units))) \<and>
         num_urls_in_units_dict (remove_repeated_urls all_units) =
           sum_list (map spec_unit_count (concat (dict_values (remove_repeated_urls all_units)))) \<and>
         num_urls_in_units_dict all_units - num_urls_in_units_dict (remove_repeated_urls all_units) =
           int (repeated_urls all_units) +
           int (dropped_subtitle_fields {} (concat (dict_values all_units))) \<and>
         int (repeated_urls all_units) =
           int (length (dict_urls all_units)) -
           int (length (dict_urls (remove_repeated_urls all_units))) \<and>
         int (dropped_subtitle_fields {} (concat (dict_values all_units))) =
           int (sum_list (map subtitle_fields (concat (dict_values all_units)))) -
           int (sum_list (map subtitle_fields
                  (concat (dict_values (remove_repeated_urls all_units)))))"
proof -
  let ?recs = "concat (dict_values all_units)"
  let ?out = "remove_repeated_urls all_units"
  have spec: "num_urls_in_units_dict d = sum_list (map spec_unit_count (concat (dict_values d)))"
    for d by (simp add: num_urls_in_units_dict_def unit_num_urls_spec)
  have out: "?out = walk_items {} all_units"
    using assms by (simp add: remove_repeated_urls_walk dict_keys_def)
  have recs_out: "concat (dict_values ?out) = snd (reduce_units {} ?recs [])"
    by (simp add: out dict_values_def walk_items_records)
  have urls_out: "dict_urls ?out = first_occurrences {} (dict_urls all_units)"
    by (simp add: out walk_items_urls)
  have len: "length (dict_urls ?out) = length (remdups (dict_urls all_units))"
    by (simp add: urls_out length_first_occurrences_empty)
  have rep: "int (repeated_urls all_units) =
      int (length (dict_urls all_units)) - int (length (dict_urls ?out))"
    using length_remdups_leq [of "dict_urls all_units"] by (simp add: repeated_urls_def len)
  have subs: "sum_list (map subtitle_fields (concat (dict_values ?out))) +
      dropped_subtitle_fields {} ?recs = sum_list (map subtitle_fields ?recs)"
    using reduce_units_subtitle_fields [of "{}" ?recs] by (simp add: recs_out)
  have n_in: "num_urls_in_units_dict all_units =
      int (length (dict_urls all_units)) + int (sum_list (map subtitle_fields ?recs))"
    by (simp add: num_urls_in_units_dict_def sum_unit_num_urls dict_values_def units_urls_concat)
  have n_out: "num_urls_in_units_dict ?out =
      int (length (dict_urls ?out)) + int (sum_list (map subtitle_fields (concat (dict_values ?out))))"
    by (simp add: num_urls_in_units_dict_def sum_unit_num_urls dict_values_def units_urls_concat)
  have diff: "num_urls_in_units_dict all_units - num_urls_in_units_dict ?out =
      int (repeated_urls all_units) + int (dropped_subtitle_fields {} ?recs)"
    using subs by (simp add: n_in n_out rep)
  have dropped: "int (dropped_subtitle_fields {} ?recs) =
      int (sum_list (map subtitle_fields ?recs)) -
      int (sum_list (map subtitle_fields (concat (dict_values ?out))))"
    using subs by simp
  show ?thesis using spec [of all_units] spec [of ?out] diff rep dropped by blast
qed

text \<open>
  Witness for claim C4: in the example 13 fields and entries are counted before and 7
  after; 4 repeated urls and the 2 subtitle fields of the dropped unit make the difference.
\<close>

theorem count_conservation_witness:
  "distinct (dict_keys example_units) \<and>
   num_urls_in_units_dict example_units = 13 \<and>
   num_urls_in_units_dict (remove_repeated_urls example_units) = 7 \<and>
   repeated_urls example_units = 4 \<and>
   dropped_subtitle_fields {} (concat (dict_values example_units)) = 2"
proof -
  have n: "num_urls_in_units_dict example_units = 13"
    by (simp add: num_urls_in_units_dict_def dict_values_def unit_num_urls_def example_defs)
  have r: "repeated_urls example_units = 4"
    by (simp add: repeated_urls_def dict_urls_def units_urls_def unit_urls_def example_defs)
  have d: "dropped_subtitle_fields {} (concat (dict_values example_units)) = 2"
    by (simp add: dict_values_def unit_urls_def subtitle_fields_def example_defs)
  from count_conservation [OF example_keys] example_keys n r d
  show ?thesis by (simp add: example_counts)
qed

section \<open>Properties of the cache\<close>

lemma map_of_dict_update:
  "map_of (dict_update d other) = map_of d ++ map_of (rev other)"
proof (induction other arbitrary: d)
  case Nil
  then show ?case by simp
next
  case (Cons p other)
  obtain k v where p: "p = (k, v)" by (cases p)
  show ?case
    using Cons.IH [of "AList.update k v d"]
    by (simp add: p update_conv' map_add_upd_left fun_eq_iff map_add_def split: option.splits)
qed

lemma pool_map_success:
  "pool_map f urls fetch_log = Inr (fetch_log', rs) \<Longrightarrow>
     fetch_log' = fetch_log @ urls \<and> map Inr rs = map f urls"
proof (induction urls arbitrary: fetch_log fetch_log' rs)
  case Nil
  then show ?case by simp
next
  case (Cons u urls)
  from Cons.prems obtain r where r: "f u = Inr r"
    by (cases "f u") auto
  from Cons.prems r obtain rs' where
    rs': "pool_map f urls (fetch_log @ [u]) = Inr (fetch_log', rs')" and rs: "rs = r # rs'"
    by (cases "pool_map f urls (fetch_log @ [u])") auto
  show ?case using Cons.IH [OF rs'] r rs by simp
qed

lemma pool_map_total:
  "\<forall>u \<in> set urls. \<exists>r. f u = Inr r \<Longrightarrow> \<exists>rs. pool_map f urls fetch_log = Inr (fetch_log @ urls, rs)"
proof (induction urls arbitrary: fetch_log)
  case Nil
  then show ?case by simp
next
  case (Cons u urls)
  from Cons.prems obtain r where r: "f u = Inr r" by auto
  from Cons.prems have "\<forall>u \<in> set urls. \<exists>r. f u = Inr r" by simp
  from Cons.IH [OF this, of "fetch_log @ [u]"]
  obtain rs where "pool_map f urls (fetch_log @ [u]) = Inr ((fetch_log @ [u]) @ urls, rs)"
    by blast
  then show ?case using r by simp
qed

lemma map_of_rev_zip_results:
  "map Inr rs = map f urls \<Longrightarrow>
     map_of (rev (zip urls rs)) u = (if u \<in> set urls then Some (projr (f u)) else None)"
proof (induction urls arbitrary: rs)
  case Nil
  then show ?case by simp
next
  case (Cons a urls)
  from Cons.prems obtain r rs' where rs: "rs = r # rs'" and r: "f a = Inr r"
    and rest: "map Inr rs' = map f urls"
    by (cases rs) auto
  show ?case using Cons.IH [OF rest] r
    by (auto simp: rs map_add_def split: option.splits)
qed

lemma map_of_rev_distinct:
  "distinct (map fst xs) \<Longrightarrow> map_of (rev xs) = map_of xs"
proof (induction xs)
  case Nil
  then show ?case by simp
next
  case (Cons p xs)
  obtain k v where p: "p = (k, v)" by (cases p)
  have k: "map_of xs k = None" using Cons.prems by (simp add: p map_of_eq_None_iff)
  show ?case using Cons k
    by (auto simp: p fun_eq_iff map_add_def split: option.splits)
qed

text \<open>
  Claim C6. When every requested url is a key of the cached map, nothing is fetched (the
  log of fetches is unchanged) and the cached map is returned as it is, whatever the
  extractor would do.
\<close>

theorem cache_hit_no_fetch:
  assumes "set all_urls \<subseteq> set (dict_keys cached_units)"
  shows "extract_all_units_with_cache (Stored cached_units) f all_urls fetch_log
           = Inr (fetch_log, cached_units)"
proof -
  have "filter (\<lambda>url. url \<notin> set (dict_keys cached_units)) all_urls = []"
    using assms by (auto simp: filter_empty_conv)
  then show ?thesis
    by (simp add: extract_all_units_with_cache_def load_cache_def extract_all_units_def
        dict_of_pairs_def)
qed

text \<open>
  Witness for claim C6: with the example map as cache and an extractor that always fails.
\<close>

theorem cache_hit_no_fetch_witness:
  "set [''/s2'', ''/s1''] \<subseteq> set (dict_keys example_units) \<and>
   extract_all_units_with_cache (Stored example_units) (\<lambda>page_url. Inl URLError)
     [''/s2'', ''/s1''] [] = Inr ([], example_units)"
proof -
  have h: "set [''/s2'', ''/s1''] \<subseteq> set (dict_keys example_units)"
    by (simp add: dict_keys_def example_units_def)
  from cache_hit_no_fetch [OF h] h show ?thesis by blast
qed

text \<open>
  Claim C5. A missing cache file is treated as an empty map. When the cache can be read and
  the extractor succeeds on the new urls (the requested urls that are not keys of the cached
  map, in the order of the request), \<open>extract_all_units\<close> is run on exactly these urls,
  each is fetched once in that order, and the result is the cached map overridden by the
  newly extracted one, which has the new urls as keys and the extractor's units as values.
\<close>

theorem cache_reconciler:
  assumes "load_cache file = Inr cached_units"
    and "new_urls = filter (\<lambda>url. url \<notin> set (dict_keys cached_units)) all_urls"
    and "\<forall>u \<in> set new_urls. \<exists>r. extract_units u = Inr r"
  shows "extract_all_units_with_cache Missing extract_units all_urls fetch_log
           = extract_all_units_with_cache (Stored []) extract_units all_urls fetch_log \<and>
         (\<exists>new_units all_units.
            extract_all_units extract_units new_urls fetch_log
              = Inr (fetch_log @ new_urls, new_units) \<and>
            extract_all_units_with_cache file extract_units all_urls fetch_log
              = Inr (fetch_log @ new_urls, all_units) \<and>
            map_of all_units = map_of cached_units ++ map_of new_units \<and>
            dom (map_of new_units) = set new_urls \<and>
            (\<forall>u \<in> set new_urls. extract_units u = Inr (the (map_of new_units u))))"
proof
  show "extract_all_units_with_cache Missing extract_units all_urls fetch_log
           = extract_all_units_with_cache (Stored []) extract_units all_urls fetch_log"
    by (simp add: extract_all_units_with_cache_def load_cache_def)
next
  obtain rs where rs: "pool_map extract_units new_urls fetch_log = Inr (fetch_log @ new_urls, rs)"
    using pool_map_total [OF assms(3)] by blast
  have res: "map Inr rs = map extract_units new_urls"
    using pool_map_success [OF rs] by simp
  define new_units where "new_units = dict_of_pairs (zip new_urls rs)"
  define all_units where "all_units = dict_update cached_units new_units"
  have new: "extract_all_units extract_units new_urls fetch_log
      = Inr (fetch_log @ new_urls, new_units)"
    by (simp add: extract_all_units_def rs new_units_def)
  have all: "extract_all_units_with_cache file extract_units all_urls fetch_log
      = Inr (fetch_log @ new_urls, all_units)"
    using new assms(1,2) by (simp add: extract_all_units_with_cache_def all_units_def)
  have keys: "distinct (map fst new_units)"
  proof -
    have "distinct (map fst d) \<Longrightarrow> distinct (map fst (dict_update d ps))" for d ps :: "Unit list dict"
      by (induction ps arbitrary: d) (auto simp: distinct_update)
    then show ?thesis by (simp add: new_units_def dict_of_pairs_def)
  qed
  have m_new: "map_of new_units u = (if u \<in> set new_urls then Some (projr (extract_units u)) else None)" for u
    using map_of_rev_zip_results [OF res, of u]
    by (simp add: new_units_def dict_of_pairs_def map_of_dict_update)
  have m_all: "map_of all_units = map_of cached_units ++ map_of new_units"
  proof -
    have "map_of (rev new_units) = map_of new_units"
      using keys by (rule map_of_rev_distinct)
    then show ?thesis by (simp add: all_units_def map_of_dict_update)
  qed
  have dom: "dom (map_of new_units) = set new_urls"
    by (auto simp: m_new dom_def)
  have val: "\<forall>u \<in> set new_urls. extract_units u = Inr (the (map_of new_units u))"
    using assms(3) by (auto simp: m_new)
  show "\<exists>new_units all_units.
            extract_all_units extract_units new_urls fetch_log
              = Inr (fetch_log @ new_urls, new_units) \<and>
            extract_all_units_with_cache file extract_units all_urls fetch_log
              = Inr (fetch_log @ new_urls, all_units) \<and>
            map_of all_units = map_of cached_units ++ map_of new_units \<and>
            dom (map_of new_units) = set new_urls \<and>
            (\<forall>u \<in> set new_urls. extract_units u = Inr (the (map_of new_units u)))"
    apply (rule exI [of _ new_units], rule exI [of _ all_units])
    using new all m_all dom val by blast
qed

text \<open>
  Witness for claim C5: \<open>/s1\<close> is cached, \<open>/s1\<close> and \<open>/s3\<close> are requested.
\<close>

theorem cache_reconciler_witness:
  "load_cache (Stored [(''/s1'', [unit_a])]) = Inr [(''/s1'', [unit_a])] \<and>
   [''/s3''] = filter (\<lambda>url. url \<notin> set (dict_keys [(''/s1'', [unit_a])])) [''/s1'', ''/s3''] \<and>
   extract_all_units_with_cache (Stored [(''/s1'', [unit_a])]) example_extract_units
      [''/s1'', ''/s3''] [] = Inr ([''/s3''], [(''/s1'', [unit_a]), (''/s3'', [unit_c])]) \<and>
   extract_all_units_with_cache Missing example_extract_units [''/s1'', ''/s3''] []
      = extract_all_units_with_cache (Stored []) example_extract_units [''/s1'', ''/s3''] []"
proof -
  have h1: "load_cache (Stored [(''/s1'', [unit_a])]) = Inr [(''/s1'', [unit_a])]"
    by (simp add: load_cache_def)
  have h2: "[''/s3''] =
      filter (\<lambda>url. url \<notin> set (dict_keys [(''/s1'', [unit_a])])) [''/s1'', ''/s3'']"
    by (simp add: dict_keys_def)
  have h3: "\<forall>u \<in> set [''/s3'']. \<exists>r. example_extract_units u = Inr r"
    by (simp add: example_extract_units_def)
  have v: "extract_all_units_with_cache (Stored [(''/s1'', [unit_a])]) example_extract_units
      [''/s1'', ''/s3''] [] = Inr ([''/s3''], [(''/s1'', [unit_a]), (''/s3'', [unit_c])])"
    by (simp add: extract_all_units_with_cache_def load_cache_def dict_keys_def
        extract_all_units_def example_extract_units_def dict_of_pairs_def)
  from cache_reconciler [OF h1 h2 h3, of "[]"] h1 h2 v
  show ?thesis by blast
qed

section \<open>The map handed to \<open>download\<close>\<close>

text \<open>
  Claim C1. On the example \<open>main\<close> reports 6 urls removed out of 13 and then calls
  \<open>download\<close> with the map as extracted, which differs from the filtered map: the result of
  \<open>remove_repeated_urls\<close> is used for the report only.
\<close>

theorem main_downloads_unfiltered_map:
  "main_from_selections \<lparr>cache = False, dry_run = False\<rparr> Missing example_extract_units
     example_selections =
   Completed \<lparr>cache_written = None, report = (6, 13), download_all_units = Some example_units\<rparr>
   \<and> remove_repeated_urls example_units \<noteq> example_units"
proof
  have urls: "main_all_urls example_selections = [''/s1'', ''/s2'', ''/s3'']"
    by (simp add: main_all_urls_def example_selections_def)
  have ext: "extract_all_units example_extract_units [''/s1'', ''/s2'', ''/s3''] []
      = Inr ([''/s1'', ''/s2'', ''/s3''], example_units)"
    by (simp add: extract_all_units_def example_extract_units_def dict_of_pairs_def
        example_units_def)
  have sel: "length (concat (map snd example_selections)) = 1"
    by (simp add: example_selections_def)
  show "main_from_selections \<lparr>cache = False, dry_run = False\<rparr> Missing example_extract_units
     example_selections =
   Completed \<lparr>cache_written = None, report = (6, 13), download_all_units = Some example_units\<rparr>"
    by (simp add: main_from_selections_def urls ext sel example_counts)
  show "remove_repeated_urls example_units \<noteq> example_units"
    by (simp add: example_filtered) (simp add: example_units_def)
qed

section \<open>Properties of the subtitle download\<close>

lemma write_subtitles_run:
  "write_subtitles h target_dir filename items w = (r, w') \<Longrightarrow>
     \<exists>new newf. written w' = written w @ new \<and> fetched w' = fetched w @ newf \<and>
       distinct new \<and> set new \<inter> dom (files w) = {} \<and>
       dom (files w') = dom (files w) \<union> set new \<and>
       snd ` set newf \<inter> dom (files w) = {} \<and> set new \<subseteq> snd ` set newf \<and>
       cwd w' = cwd w"
proof (induction items arbitrary: w)
  case Nil
  then show ?case by auto
next
  case (Cons item items)
  obtain sub_lang sub_url where item: "item = (sub_lang, sub_url)" by (cases item)
  define path where
    "path = path_join (cwd w) (path_join target_dir (filename @ ''.'' @ sub_lang @ ''.srt''))"
  show ?case
  proof (cases "path \<in> dom (files w)")
    case True
    then have "write_subtitles h target_dir filename items w = (r, w')"
      using Cons.prems by (simp add: item path_def path_exists_def Let_def)
    from Cons.IH [OF this] show ?thesis .
  next
    case False
    define w1 where "w1 = w\<lparr>fetched := fetched w @ [(sub_url, path)]\<rparr>"
    show ?thesis
    proof (cases "edx_get_subtitle h sub_url")
      case (Inl e)
      have "w' = w1"
        using Inl Cons.prems False
        by (simp add: item path_def path_exists_def Let_def w1_def)
      show ?thesis
      proof (intro exI conjI)
        show "written w' = written w @ []" by (simp add: \<open>w' = w1\<close> w1_def)
        show "fetched w' = fetched w @ [(sub_url, path)]" by (simp add: \<open>w' = w1\<close> w1_def)
        show "distinct ([] :: string list)" by simp
        show "set [] \<inter> dom (files w) = {}" by simp
        show "dom (files w') = dom (files w) \<union> set []" by (simp add: \<open>w' = w1\<close> w1_def)
        show "snd ` set [(sub_url, path)] \<inter> dom (files w) = {}" using False by simp
        show "set [] \<subseteq> snd ` set [(sub_url, path)]" by simp
        show "cwd w' = cwd w" by (simp add: \<open>w' = w1\<close> w1_def)
      qed
    next
      case (Inr subs_string)
      show ?thesis
      proof (cases "truthy subs_string")
        case True
        define w2 where "w2 = w1\<lparr>files := (files w1)(path \<mapsto> the subs_string),
                                  written := written w1 @ [path]\<rparr>"
        have "write_subtitles h target_dir filename items w2 = (r, w')"
          using Cons.prems False Inr True
          by (simp add: item path_def path_exists_def Let_def w1_def w2_def)
        from Cons.IH [OF this] obtain new newf where
          n: "written w' = written w2 @ new" "fetched w' = fetched w2 @ newf"
            "distinct new" "set new \<inter> dom (files w2) = {}"
            "dom (files w') = dom (files w2) \<union> set new"
            "snd ` set newf \<inter> dom (files w2) = {}" "set new \<subseteq> snd ` set newf"
            "cwd w' = cwd w2"
          by auto
        have w2: "written w2 = written w @ [path]" "fetched w2 = fetched w @ [(sub_url, path)]"
          "dom (files w2) = insert path (dom (files w))" "cwd w2 = cwd w"
          by (simp_all add: w2_def w1_def)
        show ?thesis
        proof (intro exI conjI)
          show "written w' = written w @ (path # new)" by (simp add: n(1) w2(1))
          show "fetched w' = fetched w @ ((sub_url, path) # newf)" by (simp add: n(2) w2(2))
          show "distinct (path # new)" using n(3,4) w2(3) by auto
          show "set (path # new) \<inter> dom (files w) = {}" using n(4) w2(3) False by auto
          show "dom (files w') = dom (files w) \<union> set (path # new)" using n(5) w2(3) by auto
          show "snd ` set ((sub_url, path) # newf) \<inter> dom (files w) = {}"
            using n(6) w2(3) False by auto
          show "set (path # new) \<subseteq> snd ` set ((sub_url, path) # newf)" using n(7) by auto
          show "cwd w' = cwd w" by (simp add: n(8) w2(4))
        qed
      next
        case F: False
        have "write_subtitles h target_dir filename items w1 = (r, w')"
          using Cons.prems False Inr F
          by (simp add: item path_def path_exists_def Let_def w1_def)
        from Cons.IH [OF this] obtain new newf where
          n: "written w' = written w1 @ new" "fetched w' = fetched w1 @ newf"
            "distinct new" "set new \<inter> dom (files w1) = {}"
            "dom (files w') = dom (files w1) \<union> set new"
            "snd ` set newf \<inter> dom (files w1) = {}" "set new \<subseteq> snd ` set newf"
            "cwd w' = cwd w1"
          by auto
        have w1: "written w1 = written w" "fetched w1 = fetched w @ [(sub_url, path)]"
          "dom (files w1) = dom (files w)" "cwd w1 = cwd w"
          by (simp_all add: w1_def)
        show ?thesis
        proof (intro exI conjI)
          show "written w' = written w @ new" by (simp add: n(1) w1(1))
          show "fetched w' = fetched w @ ((sub_url, path) # newf)" by (simp add: n(2) w1(2))
          show "distinct new" by (rule n(3))
          show "set new \<inter> dom (files w) = {}" using n(4) w1(3) by simp
          show "dom (files w') = dom (files w) \<union> set new" using n(5) w1(3) by simp
          show "snd ` set ((sub_url, path) # newf) \<inter> dom (files w) = {}"
            using n(6) w1(3) False by auto
          show "set new \<subseteq> snd ` set ((sub_url, path) # newf)" using n(7) by auto
          show "cwd w' = cwd w" by (simp add: n(8) w1(4))
        qed
      qed
    qed
  qed
qed

lemma download_subtitles_run:
  assumes "download_subtitles h unit target_dir filename_prefix w = (r, w')"
  shows "\<exists>new newf. written w' = written w @ new \<and> fetched w' = fetched w @ newf \<and>
       distinct new \<and> set new \<inter> dom (files w) = {} \<and>
       dom (files w') = dom (files w) \<union> set new \<and>
       snd ` set newf \<inter> dom (files w) = {} \<and> set new \<subseteq> snd ` set newf \<and>
       cwd w' = cwd w"
proof -
  have same: "w' = w \<Longrightarrow> ?thesis"
    by (intro exI [of _ "[]"]) simp
  show ?thesis
  proof (cases "get_filename_from_prefix h (files w) target_dir filename_prefix")
    case None
    then show ?thesis using assms same by (simp add: download_subtitles_def)
  next
    case (Some filename)
    show ?thesis
    proof (cases "sub_template_url unit")
      case None
      then show ?thesis using assms same Some by (simp add: download_subtitles_def)
    next
      case S: (Some t)
      show ?thesis
      proof (cases "get_subtitles_download_urls h (available_subs_url unit) (sub_template_url unit)")
        case (Inl e)
        then show ?thesis using assms same Some S by (simp add: download_subtitles_def)
      next
        case (Inr urls)
        then have "write_subtitles h target_dir filename urls w = (r, w')"
          using assms Some S by (simp add: download_subtitles_def)
        then show ?thesis by (rule write_subtitles_run)
      qed
    qed
  qed
qed

text \<open>
  Claim C8. Two runs of \<open>_download_subtitles\<close> for the same unit, directory and prefix,
  one after the other, whatever the helpers answer in each: every path is written at most
  once over both runs. A run requests and writes a subtitle only for a path that does not
  exist when the run starts; what the first run wrote exists afterwards, so the second run
  neither requests nor writes it again.
\<close>

theorem subtitle_written_once_per_path:
  assumes "download_subtitles h1 unit target_dir filename_prefix w0 = (r1, w1)"
    and "download_subtitles h2 unit target_dir filename_prefix w1 = (r2, w2)"
    and "written w0 = []" and "fetched w0 = []"
  shows "distinct (written w2) \<and>
         (\<exists>new2 newf2. written w2 = written w1 @ new2 \<and> fetched w2 = fetched w1 @ newf2 \<and>
            set (written w1) \<inter> dom (files w0) = {} \<and>
            snd ` set (fetched w1) \<inter> dom (files w0) = {} \<and>
            set (written w1) \<subseteq> dom (files w1) \<and>
            set new2 \<inter> dom (files w1) = {} \<and>
            snd ` set newf2 \<inter> dom (files w1) = {} \<and>
            set new2 \<inter> set (written w1) = {} \<and>
            snd ` set newf2 \<inter> set (written w1) = {})"
proof -
  from download_subtitles_run [OF assms(1)] assms(3,4) obtain
    a: "distinct (written w1)" "set (written w1) \<inter> dom (files w0) = {}"
      "dom (files w1) = dom (files w0) \<union> set (written w1)"
      "snd ` set (fetched w1) \<inter> dom (files w0) = {}"
    by auto
  from download_subtitles_run [OF assms(2)] obtain new2 newf2 where
    b: "written w2 = written w1 @ new2" "fetched w2 = fetched w1 @ newf2"
      "distinct new2" "set new2 \<inter> dom (files w1) = {}"
      "snd ` set newf2 \<inter> dom (files w1) = {}"
    by auto
  have sub: "set (written w1) \<subseteq> dom (files w1)" using a(3) by simp
  have d: "distinct (written w2)" using a(1) b(1,3,4) sub by auto
  show ?thesis
  proof (intro conjI exI)
    show "distinct (written w2)" by (rule d)
    show "written w2 = written w1 @ new2" by (rule b(1))
    show "fetched w2 = fetched w1 @ newf2" by (rule b(2))
    show "set (written w1) \<inter> dom (files w0) = {}" by (rule a(2))
    show "snd ` set (fetched w1) \<inter> dom (files w0) = {}" by (rule a(4))
    show "set (written w1) \<subseteq> dom (files w1)" by (rule sub)
    show "set new2 \<inter> dom (files w1) = {}" by (rule b(4))
    show "snd ` set newf2 \<inter> dom (files w1) = {}" by (rule b(5))
    show "set new2 \<inter> set (written w1) = {}" using b(4) sub by blast
    show "snd ` set newf2 \<inter> set (written w1) = {}" using b(5) sub by blast
  qed
qed

text \<open>The template of the example fits; one without a conversion does not.\<close>

lemma example_percent:
  "percent_scan ''/tmpl1/%s'' ''en'' False = Inr ''/tmpl1/en''"
  "percent_scan ''/tmpl1/'' ''en'' False = Inl TypeError"
  by simp_all

lemma example_first_run:
  "download_subtitles (example_helpers HTTPError) unit_a ''out'' ''01'' example_world =
     (None, \<lparr>files = [''/home/out/01-video.en.srt'' \<mapsto> ''srt of /tmpl1/en''],
             cwd = ''/home'',
             written = [''/home/out/01-video.en.srt''],
             fetched = [(''/tmpl1/en'', ''/home/out/01-video.en.srt'')]\<rparr>)"
  by (simp add: download_subtitles_def example_helpers_def unit_a_def example_world_def
      get_subtitles_download_urls_def path_join_def path_exists_def edx_get_subtitle_def
      truthy_def Let_def)

lemma example_second_run:
  "download_subtitles (example_helpers HTTPError) unit_a ''out'' ''01''
     \<lparr>files = [''/home/out/01-video.en.srt'' \<mapsto> ''srt of /tmpl1/en''],
      cwd = ''/home'',
      written = [''/home/out/01-video.en.srt''],
      fetched = [(''/tmpl1/en'', ''/home/out/01-video.en.srt'')]\<rparr> =
     (None, \<lparr>files = [''/home/out/01-video.en.srt'' \<mapsto> ''srt of /tmpl1/en''],
             cwd = ''/home'',
             written = [''/home/out/01-video.en.srt''],
             fetched = [(''/tmpl1/en'', ''/home/out/01-video.en.srt'')]\<rparr>)"
  by (simp add: download_subtitles_def example_helpers_def unit_a_def
      get_subtitles_download_urls_def path_join_def path_exists_def edx_get_subtitle_def
      truthy_def Let_def)

text \<open>
  Witness for claim C8: the first run writes the English subtitle, the second run writes
  and requests nothing.
\<close>

theorem subtitle_written_once_per_path_witness:
  "written example_world = [] \<and> fetched example_world = [] \<and>
   written (snd (download_subtitles (example_helpers HTTPError) unit_a ''out'' ''01''
     (snd (download_subtitles (example_helpers HTTPError) unit_a ''out'' ''01'' example_world))))
     = [''/home/out/01-video.en.srt''] \<and>
   fetched (snd (download_subtitles (example_helpers HTTPError) unit_a ''out'' ''01''
     (snd (download_subtitles (example_helpers HTTPError) unit_a ''out'' ''01'' example_world))))
     = [(''/tmpl1/en'', ''/home/out/01-video.en.srt'')]"
proof -
  have h3: "written example_world = []" and h4: "fetched example_world = []"
    by (simp_all add: example_world_def)
  from subtitle_written_once_per_path [OF example_first_run example_second_run h3 h4] h3 h4
  show ?thesis by (simp add: example_first_run example_second_run)
qed


text \<open>
  What \<open>_download_subtitles\<close> does after the language list never depends on how the list
  was obtained, and the exceptions that \<open>edx_get_subtitle\<close> catches never leave the loop.
\<close>

lemma build_sub_urls_langs_field:
  "build_sub_urls (h\<lparr>get_page_contents_as_json_langs := f\<rparr>) template langs acc =
     build_sub_urls h template langs acc"
  by (induction langs arbitrary: acc) (auto split: sum.splits)







end
